theory Spec2Isabelle
  imports Main "HOL-Library.Multiset" "HOL-Library.Log_Nat"
begin

section \<open>Cards\<close>

text \<open>
  The source fixes the ranks and suits as two constant lists of strings,
  \<^verbatim>\<open>RANKS = ['2', ..., '10', 'J', 'Q', 'K', 'A']\<close> and \<^verbatim>\<open>SUITS\<close> (four suit symbols);
  a card is a pair \<^verbatim>\<open>(rank, suit)\<close>. The two lists are enumerations, so each becomes a
  datatype with one constructor per string, and the lists keep the source's order.
\<close>

datatype rank = Two | Three | Four | Five | Six | Seven | Eight | Nine | Ten
  | Jack | Queen | King | Ace

datatype suit = Spades | Hearts | Diamonds | Clubs

type_synonym card = "rank \<times> suit"

definition SUITS :: "suit list" where
  "SUITS = [Spades, Hearts, Diamonds, Clubs]"

definition RANKS :: "rank list" where
  "RANKS = [Two, Three, Four, Five, Six, Seven, Eight, Nine, Ten, Jack, Queen, King, Ace]"

text \<open>
  \<^verbatim>\<open>int(r)\<close> on a rank string. The source calls it only in the last branch of
  \<^verbatim>\<open>value_of_hand\<close>, where the rank is none of J, Q, K, A; on those four strings
  Python's \<^verbatim>\<open>int\<close> raises, and the function is left without an equation there.
\<close>

fun int_of_rank :: "rank \<Rightarrow> int" where
  "int_of_rank Two = 2"
| "int_of_rank Three = 3"
| "int_of_rank Four = 4"
| "int_of_rank Five = 5"
| "int_of_rank Six = 6"
| "int_of_rank Seven = 7"
| "int_of_rank Eight = 8"
| "int_of_rank Nine = 9"
| "int_of_rank Ten = 10"

section \<open>Hand value\<close>

text \<open>
  \<^verbatim>\<open>value_of_hand\<close> runs two loops. The first walks the hand and accumulates
  \<^verbatim>\<open>vals\<close> and \<^verbatim>\<open>aces\<close>; the second is
  \<^verbatim>\<open>while vals > 21 and aces: vals -= 10; aces -= 1\<close>.
\<close>

fun count_hand :: "card list \<Rightarrow> int \<Rightarrow> int \<Rightarrow> int \<times> int" where
  "count_hand [] vals aces = (vals, aces)"
| "count_hand ((r, _) # hand) vals aces =
     (if r \<in> set [Jack, Queen, King] then count_hand hand (vals + 10) aces
      else if r = Ace then count_hand hand (vals + 11) (aces + 1)
      else count_hand hand (vals + int_of_rank r) aces)"

function reduce_aces :: "int \<Rightarrow> int \<Rightarrow> int" where
  "reduce_aces vals aces =
     (if vals > 21 \<and> aces \<noteq> 0 then reduce_aces (vals - 10) (aces - 1) else vals)"
  by pat_completeness auto
termination
  by (relation "measure (\<lambda>(vals, aces). nat (vals - 21))") auto

declare reduce_aces.simps [simp del]

definition value_of_hand :: "card list \<Rightarrow> int" where
  "value_of_hand hand = (case count_hand hand 0 0 of (vals, aces) \<Rightarrow> reduce_aces vals aces)"

subsection \<open>The reference definition of the specification\<close>

text \<open>
  The specification's wording of the hand value, kept apart from the code's: every card
  has a face value (J, Q, K count 10, a numeric rank its number, an Ace 11), the raw
  total is their sum, and one Ace at a time gives up 10 points while the total exceeds
  21 and an Ace still counts 11.
\<close>

fun face_value :: "rank \<Rightarrow> int" where
  "face_value Jack = 10"
| "face_value Queen = 10"
| "face_value King = 10"
| "face_value Ace = 11"
| "face_value Two = 2"
| "face_value Three = 3"
| "face_value Four = 4"
| "face_value Five = 5"
| "face_value Six = 6"
| "face_value Seven = 7"
| "face_value Eight = 8"
| "face_value Nine = 9"
| "face_value Ten = 10"

definition raw_total :: "card list \<Rightarrow> int" where
  "raw_total hand = sum_list (map (\<lambda>c. face_value (fst c)) hand)"

definition ace_count :: "card list \<Rightarrow> nat" where
  "ace_count hand = length (filter (\<lambda>c. fst c = Ace) hand)"

fun soften :: "int \<Rightarrow> nat \<Rightarrow> int" where
  "soften t 0 = t"
| "soften t (Suc k) = (if t > 21 then soften (t - 10) k else t)"

definition reference_value :: "card list \<Rightarrow> int" where
  "reference_value hand = soften (raw_total hand) (ace_count hand)"

subsection \<open>The two loops of the code, in closed form\<close>

lemma count_hand_acc:
  "count_hand hand vals aces = (vals + raw_total hand, aces + int (ace_count hand))"
proof (induction hand arbitrary: vals aces)
  case Nil
  show ?case by (simp add: raw_total_def ace_count_def)
next
  case (Cons c hand)
  obtain r s where c: "c = (r, s)" by (cases c)
  show ?case unfolding c
    by (cases r) (simp_all add: Cons.IH raw_total_def ace_count_def)
qed

lemma reduce_aces_soften: "reduce_aces vals (int k) = soften vals k"
proof (induction k arbitrary: vals)
  case 0
  show ?case by (simp add: reduce_aces.simps [of vals 0])
next
  case (Suc k)
  have "reduce_aces vals (int (Suc k)) =
      (if vals > 21 then reduce_aces (vals - 10) (int k) else vals)"
    by (subst reduce_aces.simps) simp
  then show ?case by (simp add: Suc.IH)
qed

lemma value_of_hand_soften: "value_of_hand hand = soften (raw_total hand) (ace_count hand)"
  by (simp add: value_of_hand_def count_hand_acc reduce_aces_soften)

lemma soften_lower: "t - 10 * int k \<le> soften t k"
proof (induction k arbitrary: t)
  case 0
  show ?case by simp
next
  case (Suc k)
  from Suc.IH [of "t - 10"] show ?case by simp
qed

text \<open>
  With every Ace counted 1 a card is still worth at least one point, so a hand is worth
  at least as many points as it has cards. This bounds the dealer's loop below.
\<close>

lemma hard_total_length: "int (length hand) + 10 * int (ace_count hand) \<le> raw_total hand"
proof (induction hand)
  case Nil
  show ?case by (simp add: raw_total_def ace_count_def)
next
  case (Cons c hand)
  obtain r s where c: "c = (r, s)" by (cases c)
  from Cons.IH show ?case unfolding c
    by (cases r) (simp_all add: raw_total_def ace_count_def)
qed

lemma length_le_value: "int (length hand) \<le> value_of_hand hand"
  using soften_lower [of "raw_total hand" "ace_count hand"] hard_total_length [of hand]
  by (simp add: value_of_hand_soften)

section \<open>The deck\<close>

text \<open>
  \<^verbatim>\<open>Deck.__init__\<close> builds the 52 cards, suit by suit, and calls
  \<^verbatim>\<open>random.shuffle\<close> on them. The library's shuffle is a parameter of the model:
  \<open>sh n xs\<close> is the order in which the \<open>n\<close>-th call of \<^verbatim>\<open>random.shuffle\<close> leaves the
  list \<open>xs\<close>. What the library promises of it, a rearrangement of the same cards, is
  \<open>is_shuffle\<close>. The deck records how many shuffles have been made.
\<close>

type_synonym shuffler = "nat \<Rightarrow> card list \<Rightarrow> card list"

definition is_shuffle :: "shuffler \<Rightarrow> bool" where
  "is_shuffle sh = (\<forall>n xs. mset (sh n xs) = mset xs)"

record deck =
  cards :: "card list"
  shuffles :: nat

definition full_deck :: "card list" where
  "full_deck = concat (map (\<lambda>s. map (\<lambda>r. (r, s)) RANKS) SUITS)"

definition Deck_init :: "shuffler \<Rightarrow> nat \<Rightarrow> deck" where
  "Deck_init sh n = \<lparr>cards = sh n full_deck, shuffles = Suc n\<rparr>"

text \<open>
  \<^verbatim>\<open>deal\<close>: an empty deck is rebuilt first, then \<^verbatim>\<open>self.cards.pop()\<close> removes and
  returns the last card. \<^verbatim>\<open>pop\<close> on an empty list raises \<^verbatim>\<open>IndexError\<close>: the result
  is then \<open>None\<close>, with the deck as the call left it.
\<close>

definition deal :: "shuffler \<Rightarrow> deck \<Rightarrow> card option \<times> deck" where
  "deal sh d =
     (let d1 = (if cards d = [] then Deck_init sh (shuffles d) else d)
      in if cards d1 = [] then (None, d1)
         else (Some (last (cards d1)), d1\<lparr>cards := butlast (cards d1)\<rparr>))"

text \<open>\<open>deals sh n d\<close>: \<open>n\<close> calls of \<^verbatim>\<open>deal\<close> in a row, with the result of each.\<close>

fun deals :: "shuffler \<Rightarrow> nat \<Rightarrow> deck \<Rightarrow> card option list \<times> deck" where
  "deals sh 0 d = ([], d)"
| "deals sh (Suc n) d =
     (case deal sh d of (c, d1) \<Rightarrow> (case deals sh n d1 of (cs, d2) \<Rightarrow> (c # cs, d2)))"

text \<open>
  A shuffle for the examples below: it cuts the list after its first \<open>k\<close> elements and
  puts them last.
\<close>

definition cut_at :: "nat \<Rightarrow> shuffler" where
  "cut_at k n xs = drop k xs @ take k xs"

section \<open>The natural-blackjack payout\<close>

text \<open>
  The payout of a natural is \<^verbatim>\<open>int(self.bet * 2.5)\<close>: the integer bet is converted to a
  binary64 float, multiplied by \<^verbatim>\<open>2.5\<close> in binary64, and truncated back to an integer.
  Both float operations round to 53 significant bits, ties to even. The values that
  occur are integers or half-integers, so the model computes on integers:
  \<open>round_ties_even n k\<close> is \<open>n / 2 ^ k\<close> rounded to the nearest integer, and \<open>round53 n\<close>
  is the non-negative integer \<open>n\<close> rounded to 53 significant bits.
\<close>

definition round_ties_even :: "int \<Rightarrow> nat \<Rightarrow> int" where
  "round_ties_even n k =
     (let q = n div 2 ^ k; r = n mod 2 ^ k
      in if 2 * r > 2 ^ k \<or> (2 * r = 2 ^ k \<and> odd q) then q + 1 else q)"

definition round53 :: "int \<Rightarrow> int" where
  "round53 n = (let k = nat (bitlen n - 53) in round_ties_even n k * 2 ^ k)"

text \<open>
  The conversion of an integer to a float raises \<^verbatim>\<open>OverflowError\<close> when the rounded
  value does not fit the binary64 range (\<open>None\<close> here).
\<close>

definition float_of_int :: "int \<Rightarrow> int option" where
  "float_of_int n =
     (let m = round53 \<bar>n\<bar> in if m \<ge> 2 ^ 1024 then None else Some (sgn n * m))"

text \<open>
  \<^verbatim>\<open>int(f * 2.5)\<close> for an integer-valued float \<open>f\<close>. The exact product is \<open>5 * f / 2\<close>;
  \<open>p\<close> is twice its rounded magnitude. A product beyond the binary64 range is
  infinite, and \<^verbatim>\<open>int\<close> of an infinite float raises \<^verbatim>\<open>OverflowError\<close>; \<^verbatim>\<open>int\<close> of a
  finite float truncates towards zero.
\<close>

definition int_of_times_2_5 :: "int \<Rightarrow> int option" where
  "int_of_times_2_5 f =
     (let p = round53 (5 * \<bar>f\<bar>) in if p \<ge> 2 ^ 1025 then None else Some (sgn f * (p div 2)))"

definition natural_winnings :: "int \<Rightarrow> int option" where
  "natural_winnings b =
     (case float_of_int b of None \<Rightarrow> None | Some f \<Rightarrow> int_of_times_2_5 f)"

section \<open>The application state and its operations\<close>

text \<open>
  The fields of \<^verbatim>\<open>BlackjackApp\<close> that the game logic reads and writes. The Tk widgets
  (labels, buttons, the log) only display them and are left out; the text of the bet
  entry is an argument of \<open>new_round\<close>.
\<close>

record app =
  deck :: deck
  player :: "card list"
  dealer :: "card list"
  in_round :: bool
  bankroll :: int
  bet :: int

definition init_app :: "shuffler \<Rightarrow> app" where
  "init_app sh = \<lparr>deck = Deck_init sh 0, player = [], dealer = [], in_round = False,
     bankroll = 1000, bet = 10\<rparr>"

text \<open>
  How a call ends. \<open>Rejected\<close>: the call returned early, with a log line
  (\<open>RoundInProgress\<close>), an error dialog (\<open>InvalidBet\<close>, \<open>InsufficientBankroll\<close>) or
  silently (\<open>NotInProgress\<close>). \<open>Raised\<close>: an exception left the call; Tk reports it and
  the application goes on in the state the call had reached.
\<close>

datatype py_error = IndexError | OverflowError

datatype rejection = RoundInProgress | InvalidBet | InsufficientBankroll | NotInProgress

datatype outcome = Done | Rejected rejection | Raised py_error

datatype result = Win | Push | Lose

definition round_result :: "int \<Rightarrow> int \<Rightarrow> result" where
  "round_result pv dv =
     (if pv > 21 then Lose
      else if dv > 21 then Win
      else if pv > dv then Win
      else if pv = dv then Push
      else Lose)"

definition end_round :: "app \<Rightarrow> app" where
  "end_round a =
     (let pv = value_of_hand (player a);
          dv = value_of_hand (dealer a);
          result = round_result pv dv;
          a1 = (if result = Win then a\<lparr>bankroll := bankroll a + bet a * 2\<rparr>
                else if result = Push then a\<lparr>bankroll := bankroll a + bet a\<rparr>
                else a)
      in if bankroll a1 \<le> 0 then a1\<lparr>bankroll := 1000\<rparr> else a1)"

text \<open>\<^verbatim>\<open>[self.deck.deal(), self.deck.deal()]\<close>: two deals, left to right.\<close>

definition deal_two :: "shuffler \<Rightarrow> deck \<Rightarrow> card list option \<times> deck" where
  "deal_two sh d =
     (case deal sh d of
        (None, d1) \<Rightarrow> (None, d1)
      | (Some c1, d1) \<Rightarrow>
          (case deal sh d1 of
             (None, d2) \<Rightarrow> (None, d2)
           | (Some c2, d2) \<Rightarrow> (Some [c1, c2], d2)))"

text \<open>
  The blackjack check that ends \<^verbatim>\<open>new_round\<close>, on the state after the four cards
  are dealt.
\<close>

definition blackjack_check :: "app \<Rightarrow> outcome \<times> app" where
  "blackjack_check a =
     (let pv = value_of_hand (player a);
          dv = value_of_hand (dealer a)
      in if pv = 21 \<and> dv \<noteq> 21 then
           (case natural_winnings (bet a) of
              None \<Rightarrow> (Raised OverflowError, a)
            | Some winnings \<Rightarrow>
                (Done, a\<lparr>bankroll := bankroll a + winnings, in_round := False\<rparr>))
         else if pv = 21 \<and> dv = 21 then
           (Done, a\<lparr>bankroll := bankroll a + bet a, in_round := False\<rparr>)
         else (Done, a))"

text \<open>
  The body of \<^verbatim>\<open>new_round\<close> once the bet \<open>b\<close> is accepted: the bet is taken from the
  bankroll, then two cards go to the player and two to the dealer.
\<close>

definition start_round :: "shuffler \<Rightarrow> int \<Rightarrow> app \<Rightarrow> outcome \<times> app" where
  "start_round sh b a =
     (let a1 = a\<lparr>bet := b, bankroll := bankroll a - b\<rparr>
      in case deal_two sh (deck a1) of
           (None, d1) \<Rightarrow> (Raised IndexError, a1\<lparr>deck := d1\<rparr>)
         | (Some p, d1) \<Rightarrow>
             (case deal_two sh d1 of
                (None, d2) \<Rightarrow> (Raised IndexError, a1\<lparr>deck := d2, player := p\<rparr>)
              | (Some dl, d2) \<Rightarrow>
                  blackjack_check
                    (a1\<lparr>deck := d2, player := p, dealer := dl, in_round := True\<rparr>)))"

text \<open>
  \<open>new_round sh b a\<close>: \<open>b\<close> is the result of \<^verbatim>\<open>int(self.ent_bet.get())\<close>, \<open>None\<close> when the
  text of the entry is not an integer.
\<close>

definition new_round :: "shuffler \<Rightarrow> int option \<Rightarrow> app \<Rightarrow> outcome \<times> app" where
  "new_round sh b a =
     (if in_round a then (Rejected RoundInProgress, a)
      else (case b of
              None \<Rightarrow> (Rejected InvalidBet, a)
            | Some b \<Rightarrow>
                if b \<le> 0 then (Rejected InvalidBet, a)
                else if b > bankroll a then (Rejected InsufficientBankroll, a)
                else start_round sh b a))"

definition hit :: "shuffler \<Rightarrow> app \<Rightarrow> outcome \<times> app" where
  "hit sh a =
     (if \<not> in_round a then (Rejected NotInProgress, a)
      else (case deal sh (deck a) of
              (None, d) \<Rightarrow> (Raised IndexError, a\<lparr>deck := d\<rparr>)
            | (Some c, d) \<Rightarrow>
                let a1 = a\<lparr>deck := d, player := player a @ [c]\<rparr>
                in if value_of_hand (player a1) > 21
                   then (Done, end_round (a1\<lparr>in_round := False\<rparr>))
                   else (Done, a1)))"

text \<open>
  The loop of \<^verbatim>\<open>_dealer_play\<close>:
  \<^verbatim>\<open>while value_of_hand(self.dealer) < 17: self.dealer.append(self.deck.deal())\<close>.
  It returns whether it ran to its end (no exception), the deck and the dealer's hand.
  Every draw makes the hand longer and a hand of 17 cards is worth at least 17 points,
  so the loop ends.
\<close>

function dealer_loop :: "shuffler \<Rightarrow> deck \<Rightarrow> card list \<Rightarrow> bool \<times> deck \<times> card list" where
  "dealer_loop sh d h =
     (if value_of_hand h < 17 then
        (case deal sh d of
           (None, d1) \<Rightarrow> (False, d1, h)
         | (Some c, d1) \<Rightarrow> dealer_loop sh d1 (h @ [c]))
      else (True, d, h))"
  by pat_completeness auto
termination
proof (relation "measure (\<lambda>(sh, d, h). 17 - length h)")
  show "wf (measure (\<lambda>(sh, d, h). 17 - length h))" by simp
next
  fix sh :: shuffler and d d1 :: deck and h :: "card list" and c :: card
  assume "value_of_hand h < 17"
  then have "length h < 17" using length_le_value [of h] by linarith
  then show "((sh, d1, h @ [c]), (sh, d, h)) \<in> measure (\<lambda>(sh, d, h). 17 - length h)"
    by simp
qed

declare dealer_loop.simps [simp del]

definition dealer_play :: "shuffler \<Rightarrow> app \<Rightarrow> outcome \<times> app" where
  "dealer_play sh a =
     (case dealer_loop sh (deck a) (dealer a) of
        (finished, d, h) \<Rightarrow>
          if finished then (Done, end_round (a\<lparr>deck := d, dealer := h, in_round := False\<rparr>))
          else (Raised IndexError, a\<lparr>deck := d, dealer := h\<rparr>))"

definition stand :: "shuffler \<Rightarrow> app \<Rightarrow> outcome \<times> app" where
  "stand sh a = (if \<not> in_round a then (Rejected NotInProgress, a) else dealer_play sh a)"

text \<open>
  The states the application can be in: the initial one, and the state any call of
  \<^verbatim>\<open>new_round\<close>, \<^verbatim>\<open>hit\<close> or \<^verbatim>\<open>stand\<close> leaves behind, however the call ended.
\<close>

inductive reachable :: "shuffler \<Rightarrow> app \<Rightarrow> bool" for sh :: shuffler where
  reach_init: "reachable sh (init_app sh)"
| reach_new_round: "reachable sh a \<Longrightarrow> reachable sh (snd (new_round sh b a))"
| reach_hit: "reachable sh a \<Longrightarrow> reachable sh (snd (hit sh a))"
| reach_stand: "reachable sh a \<Longrightarrow> reachable sh (snd (stand sh a))"

section \<open>Example plays\<close>

text \<open>
  An example round: the deck is cut after nine cards, and the player bets the whole
  initial bankroll of 1000. The player holds 10 and 9, the dealer 8 and 7, and the next
  card of the deck is a 6.
\<close>

definition all_in_round :: app where
  "all_in_round = snd (new_round (cut_at 9) (Some 1000) (init_app (cut_at 9)))"

text \<open>
  A play that the application can be taken through from its initial state. The shuffle
  leaves every new deck in reverse order, so that the cards come from the two of spades
  upwards, suit by suit. Half a deck then makes five rounds: the dealer busts, the
  dealer wins, a tie at 20, the dealer busts, and the player draws to 21 against 20.
  The player bets the whole bankroll on the three rounds that are won and 1 on the two
  others, which turns a bankroll of \<open>b\<close> into \<open>8 * b - 4\<close>.
\<close>

definition upturned :: shuffler where
  "upturned n xs = rev xs"

definition round_all_in :: "app \<Rightarrow> app" where
  "round_all_in a = snd (new_round upturned (Some (bankroll a)) a)"

definition round_of_1 :: "app \<Rightarrow> app" where
  "round_of_1 a = snd (new_round upturned (Some 1) a)"

definition stands :: "app \<Rightarrow> app" where
  "stands a = snd (stand upturned a)"

definition hits :: "app \<Rightarrow> app" where
  "hits a = snd (hit upturned a)"

definition half_deck :: "app \<Rightarrow> app" where
  "half_deck a =
     stands (hits (round_all_in (stands (round_all_in (stands (round_of_1
       (stands (round_of_1 (stands (round_all_in a))))))))))"

fun half_decks :: "nat \<Rightarrow> app \<Rightarrow> app" where
  "half_decks 0 a = a"
| "half_decks (Suc n) a = half_deck (half_decks n a)"

text \<open>
  After fourteen half decks, a round of 1 that the dealer loses by a bust and a round of
  1 that the player loses by a bust on the queen of spades, the next cards of the deck
  are the king and the ace of spades.
\<close>

definition high_roller :: app where
  "high_roller = hits (round_of_1 (stands (round_of_1 (half_decks 14 (init_app upturned)))))"

section \<open>Properties of the hand value\<close>

text \<open>
  Claim C1. For every hand, \<open>value_of_hand\<close> returns what the reference definition
  returns: the sum of the face values with every Ace at 11, lowered by 10 once per Ace
  while it exceeds 21. The total may stay above 21 once no Ace is left to lower.
\<close>

theorem value_of_hand_reference: "value_of_hand hand = reference_value hand"
  unfolding reference_value_def by (rule value_of_hand_soften)

theorem value_of_hand_reference_witness:
  "value_of_hand [(Ace, Spades), (Nine, Hearts), (King, Clubs)]
     = reference_value [(Ace, Spades), (Nine, Hearts), (King, Clubs)]
   \<and> reference_value [(Ace, Spades), (Nine, Hearts), (King, Clubs)] = 20
   \<and> value_of_hand [(King, Spades), (Queen, Hearts), (Five, Clubs)] = 25"
  using value_of_hand_reference [of "[(Ace, Spades), (Nine, Hearts), (King, Clubs)]"]
    value_of_hand_reference [of "[(King, Spades), (Queen, Hearts), (Five, Clubs)]"]
  by (simp add: reference_value_def raw_total_def ace_count_def eval_nat_numeral)

lemma raw_total_mset: "mset hand = mset hand' \<Longrightarrow> raw_total hand = raw_total hand'"
proof -
  assume "mset hand = mset hand'"
  then have "sum_mset (image_mset (\<lambda>c. face_value (fst c)) (mset hand))
      = sum_mset (image_mset (\<lambda>c. face_value (fst c)) (mset hand'))"
    by simp
  then show ?thesis
    unfolding raw_total_def by (simp only: sum_mset_sum_list [symmetric] mset_map)
qed

lemma ace_count_mset: "mset hand = mset hand' \<Longrightarrow> ace_count hand = ace_count hand'"
proof -
  assume "mset hand = mset hand'"
  then have "size (filter_mset (\<lambda>c. fst c = Ace) (mset hand))
      = size (filter_mset (\<lambda>c. fst c = Ace) (mset hand'))"
    by simp
  then show ?thesis
    unfolding ace_count_def by (simp only: mset_filter [symmetric] size_mset)
qed

text \<open>
  Claim C9. The value of a hand does not depend on the order of its cards: two hands
  with the same cards, in any order, have the same value. (The function is a HOL
  function of the hand alone, so it is deterministic and has no effect.)
\<close>

theorem value_of_hand_reorder:
  "mset hand = mset hand' \<Longrightarrow> value_of_hand hand = value_of_hand hand'"
  by (simp add: value_of_hand_soften raw_total_mset [of hand hand'] ace_count_mset [of hand hand'])

theorem value_of_hand_reorder_witness:
  "mset [(Ace, Spades), (King, Hearts), (Five, Clubs)]
     = mset [(Five, Clubs), (Ace, Spades), (King, Hearts)]
   \<and> value_of_hand [(Ace, Spades), (King, Hearts), (Five, Clubs)]
     = value_of_hand [(Five, Clubs), (Ace, Spades), (King, Hearts)]
   \<and> value_of_hand [(Five, Clubs), (Ace, Spades), (King, Hearts)] = 16"
proof -
  have m: "mset [(Ace, Spades), (King, Hearts), (Five, Clubs)]
     = mset [(Five, Clubs), (Ace, Spades), (King, Hearts)]"
    by simp
  have v: "value_of_hand [(Five, Clubs), (Ace, Spades), (King, Hearts)] = 16"
    by (simp add: value_of_hand_soften raw_total_def ace_count_def)
  from m v value_of_hand_reorder [OF m] show ?thesis by simp
qed

section \<open>Dealing\<close>

lemma length_full_deck: "length full_deck = 52"
  by (simp add: full_deck_def RANKS_def SUITS_def)

lemma distinct_full_deck: "distinct full_deck"
  by (simp add: full_deck_def RANKS_def SUITS_def)

lemma is_shuffle_cut_at: "is_shuffle (cut_at k)"
  unfolding is_shuffle_def cut_at_def
  by (metis append_take_drop_id mset_append union_commute)

lemma shuffled_full_deck:
  assumes "is_shuffle sh"
  shows "mset (sh n full_deck) = mset full_deck" and "length (sh n full_deck) = 52"
    and "sh n full_deck \<noteq> []"
proof -
  show m: "mset (sh n full_deck) = mset full_deck"
    using assms by (simp add: is_shuffle_def)
  from m have "size (mset (sh n full_deck)) = size (mset full_deck)" by simp
  then show l: "length (sh n full_deck) = 52" by (simp add: length_full_deck)
  from l show "sh n full_deck \<noteq> []" by auto
qed

lemma deal_nonempty:
  "cards d \<noteq> [] \<Longrightarrow> deal sh d = (Some (last (cards d)), d\<lparr>cards := butlast (cards d)\<rparr>)"
  by (simp add: deal_def)

lemma deal_empty:
  assumes "is_shuffle sh" and "cards d = []"
  shows "deal sh d = (Some (last (sh (shuffles d) full_deck)),
           \<lparr>cards = butlast (sh (shuffles d) full_deck), shuffles = Suc (shuffles d)\<rparr>)"
  using assms shuffled_full_deck(3) [OF assms(1), of "shuffles d"]
  by (simp add: deal_def Deck_init_def)

lemma deal_succeeds:
  assumes "is_shuffle sh"
  shows "\<exists>c d'. deal sh d = (Some c, d')"
proof (cases "cards d = []")
  case True
  with deal_empty [OF assms] show ?thesis by blast
next
  case False
  with deal_nonempty show ?thesis by blast
qed

lemma deals_from_stock:
  "k \<le> length (cards d) \<Longrightarrow>
     deals sh k d = (map Some (take k (rev (cards d))),
                     d\<lparr>cards := take (length (cards d) - k) (cards d)\<rparr>)"
proof (induction k arbitrary: d)
  case 0
  show ?case by simp
next
  case (Suc k)
  then have ne: "cards d \<noteq> []" by auto
  let ?d1 = "d\<lparr>cards := butlast (cards d)\<rparr>"
  have k: "k \<le> length (cards ?d1)" using Suc.prems by simp
  have r: "rev (cards d) = last (cards d) # rev (butlast (cards d))"
    using ne by (cases "cards d" rule: rev_cases) simp_all
  show ?case
    using Suc.IH [OF k] by (simp add: deal_nonempty [OF ne] r butlast_conv_take)
qed

text \<open>
  Claim C6. With a shuffle that rearranges the cards, \<open>deal\<close> never fails. From a deck
  that is not empty it returns the last card and leaves the others. From an empty deck
  it returns a card of a newly shuffled full deck of 52 distinct cards and leaves the
  other 51. The 52 deals that follow a new deck return each card of the full deck once
  and empty the deck, and the 53rd deal succeeds and leaves 51 cards.
\<close>

theorem deal_never_fails:
  assumes "is_shuffle sh"
  shows "(cards d \<noteq> [] \<longrightarrow>
            deal sh d = (Some (last (cards d)), d\<lparr>cards := butlast (cards d)\<rparr>))
       \<and> (cards d = [] \<longrightarrow>
            (\<exists>c d'. deal sh d = (Some c, d') \<and> mset (c # cards d') = mset full_deck
                     \<and> length (cards d') = 51))
       \<and> length full_deck = 52 \<and> distinct full_deck
       \<and> (\<exists>cs d52 c d'. deals sh 52 (Deck_init sh n) = (map Some cs, d52)
             \<and> mset cs = mset full_deck \<and> cards d52 = []
             \<and> deal sh d52 = (Some c, d') \<and> length (cards d') = 51)"
proof -
  have refill: "\<exists>c d'. deal sh e = (Some c, d') \<and> mset (c # cards d') = mset full_deck
                     \<and> length (cards d') = 51" if e: "cards e = []" for e
  proof -
    let ?xs = "sh (shuffles e) full_deck"
    note fresh = shuffled_full_deck [OF assms, of "shuffles e"]
    have "mset (butlast ?xs @ [last ?xs]) = mset ?xs"
      using fresh(3) by (metis append_butlast_last_id)
    then have "mset (last ?xs # butlast ?xs) = mset full_deck"
      using fresh(1) by simp
    moreover have "length (butlast ?xs) = 51" using fresh(2) by simp
    ultimately show ?thesis using deal_empty [OF assms e] by simp
  qed
  let ?d0 = "Deck_init sh n"
  have l: "length (cards ?d0) = 52" and m: "mset (cards ?d0) = mset full_deck"
    using shuffled_full_deck [OF assms, of n] by (simp_all add: Deck_init_def)
  have "deals sh 52 ?d0 = (map Some (rev (cards ?d0)), ?d0\<lparr>cards := []\<rparr>)"
    using deals_from_stock [of 52 ?d0 sh] l by simp
  moreover have "mset (rev (cards ?d0)) = mset full_deck" using m by simp
  moreover from refill [of "?d0\<lparr>cards := []\<rparr>"]
  obtain c d' where "deal sh (?d0\<lparr>cards := []\<rparr>) = (Some c, d')" "length (cards d') = 51"
    by auto
  ultimately have "\<exists>cs d52 c d'. deals sh 52 ?d0 = (map Some cs, d52)
             \<and> mset cs = mset full_deck \<and> cards d52 = []
             \<and> deal sh d52 = (Some c, d') \<and> length (cards d') = 51"
    by (intro exI [of _ "rev (cards ?d0)"] exI [of _ "?d0\<lparr>cards := []\<rparr>"] exI [of _ c]
        exI [of _ d']) simp
  with refill [of d] deal_nonempty [of d sh] length_full_deck distinct_full_deck
  show ?thesis by blast
qed

theorem deal_never_fails_witness:
  "is_shuffle (cut_at 9)
   \<and> deal (cut_at 9) \<lparr>cards = [(Ace, Spades), (King, Hearts)], shuffles = 1\<rparr>
       = (Some (King, Hearts), \<lparr>cards = [(Ace, Spades)], shuffles = 1\<rparr>)
   \<and> (\<exists>c d'. deal (cut_at 9) \<lparr>cards = [], shuffles = 1\<rparr> = (Some c, d')
         \<and> mset (c # cards d') = mset full_deck \<and> length (cards d') = 51)
   \<and> fst (deal (cut_at 9) \<lparr>cards = [], shuffles = 1\<rparr>) = Some (Ten, Spades)"
proof -
  have "fst (deal (cut_at 9) \<lparr>cards = [], shuffles = 1\<rparr>) = Some (Ten, Spades)"
    by code_simp
  with is_shuffle_cut_at [of 9]
    deal_never_fails [OF is_shuffle_cut_at, of "\<lparr>cards = [(Ace, Spades), (King, Hearts)], shuffles = 1\<rparr>" 9 0]
    deal_never_fails [OF is_shuffle_cut_at, of "\<lparr>cards = [], shuffles = 1\<rparr>" 9 0]
  show ?thesis by simp
qed

section \<open>The dealer's play\<close>

lemma dealer_loop_draws:
  assumes "is_shuffle sh"
  shows "\<exists>drawn d'. dealer_loop sh d h = (True, d', h @ drawn)
           \<and> deals sh (length drawn) d = (map Some drawn, d')
           \<and> 17 \<le> value_of_hand (h @ drawn)
           \<and> (\<forall>k<length drawn. value_of_hand (h @ take k drawn) < 17)"
proof (induction "17 - length h" arbitrary: d h rule: less_induct)
  case less
  show ?case
  proof (cases "value_of_hand h < 17")
    case False
    then have "dealer_loop sh d h = (True, d, h @ [])"
      by (subst dealer_loop.simps) simp
    moreover have "deals sh (length ([] :: card list)) d = (map Some [], d)" by simp
    moreover have "17 \<le> value_of_hand (h @ [])" using False by simp
    ultimately show ?thesis by (metis length_0_conv not_less_zero list.size(3))
  next
    case True
    then have short: "length h < 17" using length_le_value [of h] by linarith
    from deal_succeeds [OF assms] obtain c d1 where c: "deal sh d = (Some c, d1)" by blast
    from short have "17 - length (h @ [c]) < 17 - length h" by simp
    from less [OF this] obtain drawn d'
      where res: "dealer_loop sh d1 (h @ [c]) = (True, d', (h @ [c]) @ drawn)"
        and ds: "deals sh (length drawn) d1 = (map Some drawn, d')"
        and fin: "17 \<le> value_of_hand ((h @ [c]) @ drawn)"
        and low: "\<forall>k<length drawn. value_of_hand ((h @ [c]) @ take k drawn) < 17"
      by blast
    have "dealer_loop sh d h = (True, d', h @ (c # drawn))"
      using True c res by (subst dealer_loop.simps) simp
    moreover have "deals sh (length (c # drawn)) d = (map Some (c # drawn), d')"
      using c ds by simp
    moreover have "17 \<le> value_of_hand (h @ (c # drawn))" using fin by simp
    moreover have "\<forall>k<length (c # drawn). value_of_hand (h @ take k (c # drawn)) < 17"
    proof (intro allI impI)
      fix k assume k: "k < length (c # drawn)"
      show "value_of_hand (h @ take k (c # drawn)) < 17"
      proof (cases k)
        case 0
        with True show ?thesis by simp
      next
        case (Suc j)
        with k low show ?thesis by simp
      qed
    qed
    ultimately show ?thesis by blast
  qed
qed

lemma draws_bounded:
  assumes "\<forall>k<length drawn. value_of_hand (h @ take k drawn) < 17"
  shows "length drawn \<le> 17 - length h"
proof (cases drawn rule: rev_cases)
  case Nil
  then show ?thesis by simp
next
  case (snoc ys y)
  then have "length ys < length drawn" by simp
  with assms have "value_of_hand (h @ take (length ys) drawn) < 17" by blast
  then have "value_of_hand (h @ ys) < 17" using snoc by simp
  with length_le_value [of "h @ ys"] show ?thesis using snoc by simp
qed

lemma all_in_round_state:
  "in_round all_in_round" "bankroll all_in_round = 0" "bet all_in_round = 1000"
  "player all_in_round = [(Ten, Spades), (Nine, Spades)]"
  "dealer all_in_round = [(Eight, Spades), (Seven, Spades)]"
  by code_simp+

text \<open>
  Claim C4. When the player stands in a round, the dealer draws the next cards of the
  deck one at a time, each one while the hand is worth less than 17, and stops with a
  hand worth 17 or more; the call ends, after at most \<open>17 - length (dealer a)\<close> draws.
\<close>

theorem dealer_play_draws_to_17:
  assumes "is_shuffle sh" and "in_round a"
  shows "\<exists>drawn. fst (stand sh a) = Done
           \<and> dealer (snd (stand sh a)) = dealer a @ drawn
           \<and> deals sh (length drawn) (deck a) = (map Some drawn, deck (snd (stand sh a)))
           \<and> (\<forall>k<length drawn. value_of_hand (dealer a @ take k drawn) < 17)
           \<and> 17 \<le> value_of_hand (dealer (snd (stand sh a)))
           \<and> length drawn \<le> 17 - length (dealer a)"
proof -
  from dealer_loop_draws [OF assms(1), of "deck a" "dealer a"] obtain drawn d'
    where res: "dealer_loop sh (deck a) (dealer a) = (True, d', dealer a @ drawn)"
      and ds: "deals sh (length drawn) (deck a) = (map Some drawn, d')"
      and fin: "17 \<le> value_of_hand (dealer a @ drawn)"
      and low: "\<forall>k<length drawn. value_of_hand (dealer a @ take k drawn) < 17"
    by blast
  have st: "stand sh a =
      (Done, end_round (a\<lparr>deck := d', dealer := dealer a @ drawn, in_round := False\<rparr>))"
    using assms(2) res by (simp add: stand_def dealer_play_def)
  have keep: "dealer (end_round s) = dealer s \<and> deck (end_round s) = deck s" for s
    by (simp add: end_round_def Let_def)
  from st ds fin low draws_bounded [OF low] show ?thesis
    by (intro exI [of _ drawn]) (simp add: keep)
qed

theorem dealer_play_draws_to_17_witness:
  "is_shuffle (cut_at 9) \<and> in_round all_in_round
   \<and> (\<exists>drawn. fst (stand (cut_at 9) all_in_round) = Done
        \<and> dealer (snd (stand (cut_at 9) all_in_round)) = dealer all_in_round @ drawn
        \<and> 17 \<le> value_of_hand (dealer (snd (stand (cut_at 9) all_in_round)))
        \<and> length drawn \<le> 17 - length (dealer all_in_round))
   \<and> dealer (snd (stand (cut_at 9) all_in_round))
        = [(Eight, Spades), (Seven, Spades), (Six, Spades)]"
proof -
  have d: "dealer (snd (stand (cut_at 9) all_in_round))
        = [(Eight, Spades), (Seven, Spades), (Six, Spades)]"
    by code_simp
  from dealer_play_draws_to_17 [OF is_shuffle_cut_at all_in_round_state(1), of 9]
  obtain drawn where "fst (stand (cut_at 9) all_in_round) = Done
        \<and> dealer (snd (stand (cut_at 9) all_in_round)) = dealer all_in_round @ drawn
        \<and> 17 \<le> value_of_hand (dealer (snd (stand (cut_at 9) all_in_round)))
        \<and> length drawn \<le> 17 - length (dealer all_in_round)"
    by blast
  with d is_shuffle_cut_at all_in_round_state(1) show ?thesis by blast
qed

section \<open>Rejected calls\<close>

lemma blackjack_check_not_rejected: "fst (blackjack_check a) \<noteq> Rejected r"
  by (simp add: blackjack_check_def Let_def split: option.split)

lemma start_round_not_rejected: "fst (start_round sh n a) \<noteq> Rejected r"
  by (simp add: start_round_def Let_def blackjack_check_not_rejected
      split: prod.split option.split)

lemma dealer_play_not_rejected: "fst (dealer_play sh a) \<noteq> Rejected r"
  by (simp add: dealer_play_def split: prod.split)

text \<open>
  Claim C7. A call that is rejected leaves the whole state as it was: \<open>new_round\<close>
  during a round, with a bet that is not an integer or not positive, or with a bet above
  the bankroll (rejected as \<open>InsufficientBankroll\<close>), and \<open>hit\<close> and \<open>stand\<close> outside a
  round. No call that is rejected, on any path, changes the state.
\<close>

theorem rejected_call_changes_nothing:
  "(in_round a \<longrightarrow> new_round sh b a = (Rejected RoundInProgress, a))
   \<and> (\<not> in_round a \<and> (b = None \<or> (\<exists>n. b = Some n \<and> n \<le> 0)) \<longrightarrow>
        new_round sh b a = (Rejected InvalidBet, a))
   \<and> (\<not> in_round a \<and> 0 < n \<and> bankroll a < n \<longrightarrow>
        new_round sh (Some n) a = (Rejected InsufficientBankroll, a))
   \<and> (\<not> in_round a \<longrightarrow>
        hit sh a = (Rejected NotInProgress, a) \<and> stand sh a = (Rejected NotInProgress, a))
   \<and> (\<forall>r. fst (new_round sh b a) = Rejected r \<longrightarrow> snd (new_round sh b a) = a)
   \<and> (\<forall>r. fst (hit sh a) = Rejected r \<longrightarrow> snd (hit sh a) = a)
   \<and> (\<forall>r. fst (stand sh a) = Rejected r \<longrightarrow> snd (stand sh a) = a)"
proof -
  have 1: "in_round a \<longrightarrow> new_round sh b a = (Rejected RoundInProgress, a)"
    by (simp add: new_round_def)
  have 2: "\<not> in_round a \<and> (b = None \<or> (\<exists>n. b = Some n \<and> n \<le> 0)) \<longrightarrow>
        new_round sh b a = (Rejected InvalidBet, a)"
    by (auto simp: new_round_def)
  have 3: "\<not> in_round a \<and> 0 < n \<and> bankroll a < n \<longrightarrow>
        new_round sh (Some n) a = (Rejected InsufficientBankroll, a)"
    by (simp add: new_round_def)
  have 4: "\<not> in_round a \<longrightarrow>
        hit sh a = (Rejected NotInProgress, a) \<and> stand sh a = (Rejected NotInProgress, a)"
    by (simp add: hit_def stand_def)
  have 5: "\<forall>r. fst (new_round sh b a) = Rejected r \<longrightarrow> snd (new_round sh b a) = a"
    by (simp add: new_round_def start_round_not_rejected split: option.split)
  have 6: "\<forall>r. fst (hit sh a) = Rejected r \<longrightarrow> snd (hit sh a) = a"
    by (simp add: hit_def Let_def split: prod.split option.split)
  have 7: "\<forall>r. fst (stand sh a) = Rejected r \<longrightarrow> snd (stand sh a) = a"
    by (simp add: stand_def dealer_play_not_rejected)
  from 1 2 3 4 5 6 7 show ?thesis by blast
qed

theorem rejected_call_changes_nothing_witness:
  "new_round (cut_at 9) (Some 10) all_in_round = (Rejected RoundInProgress, all_in_round)
   \<and> new_round (cut_at 9) None (init_app (cut_at 9)) = (Rejected InvalidBet, init_app (cut_at 9))
   \<and> new_round (cut_at 9) (Some 0) (init_app (cut_at 9)) = (Rejected InvalidBet, init_app (cut_at 9))
   \<and> new_round (cut_at 9) (Some 1001) (init_app (cut_at 9))
        = (Rejected InsufficientBankroll, init_app (cut_at 9))
   \<and> hit (cut_at 9) (init_app (cut_at 9)) = (Rejected NotInProgress, init_app (cut_at 9))
   \<and> stand (cut_at 9) (init_app (cut_at 9)) = (Rejected NotInProgress, init_app (cut_at 9))"
proof -
  have i: "\<not> in_round (init_app (cut_at 9))" "bankroll (init_app (cut_at 9)) = 1000"
    by (simp_all add: init_app_def)
  from i all_in_round_state(1)
    rejected_call_changes_nothing [of all_in_round "cut_at 9" "Some 10" 1]
    rejected_call_changes_nothing [of "init_app (cut_at 9)" "cut_at 9" None 1001]
    rejected_call_changes_nothing [of "init_app (cut_at 9)" "cut_at 9" "Some 0" 1001]
  show ?thesis by simp
qed

section \<open>The payout of a natural\<close>

text \<open>
  Rounding to 53 significant bits leaves an integer below \<open>2 ^ 53\<close> as it is, and
  never takes a positive integer down to half of it or less. So the payout of a
  positive bet is positive whenever it is computed, and it is \<open>\<lfloor>2.5 * b\<rfloor>\<close> exactly
  as long as \<open>5 * b\<close> has at most 53 bits.
\<close>

lemma round_ties_even_0: "round_ties_even n 0 = n"
  by (simp add: round_ties_even_def)

lemma round53_small: "n < 2 ^ 53 \<Longrightarrow> round53 n = n"
proof -
  assume "n < 2 ^ 53"
  then have "bitlen n \<le> 53" using bitlen_le_iff_power [of n 53] by simp
  then show ?thesis by (simp add: round53_def round_ties_even_0 Let_def)
qed

lemma round_ties_even_ge: "n div 2 ^ k \<le> round_ties_even n k"
  by (simp add: round_ties_even_def Let_def)

lemma round53_gt_half:
  assumes "0 < n"
  shows "n < 2 * round53 n"
proof (cases "n < 2 ^ 53")
  case True
  with assms show ?thesis by (simp add: round53_small)
next
  case False
  define k where "k = nat (bitlen n - 53)"
  from False have big: "53 < bitlen n" using bitlen_le_iff_power [of n 53] by simp
  then have "nat (bitlen n - 1) = Suc k + 51" by (simp add: k_def)
  with bitlen_bounds [OF assms] have "(2::int) ^ (Suc k + 51) \<le> n" by simp
  moreover have "(2::int) ^ Suc k \<le> 2 ^ (Suc k + 51)" by (rule power_increasing) simp_all
  ultimately have two: "2 * (2::int) ^ k \<le> n" by simp
  have "n div 2 ^ k * 2 ^ k + n mod 2 ^ k = n" by (rule div_mult_mod_eq)
  moreover have "n mod 2 ^ k < 2 ^ k" by simp
  ultimately have "n - 2 ^ k < n div 2 ^ k * 2 ^ k" by linarith
  also have "\<dots> \<le> round_ties_even n k * 2 ^ k"
    using round_ties_even_ge [of n k] by (simp add: mult_right_mono)
  finally have "n - 2 ^ k < round53 n" by (simp add: round53_def k_def Let_def)
  with two show ?thesis by linarith
qed

lemma natural_winnings_positive:
  assumes "0 < b" and "natural_winnings b = Some w"
  shows "0 < w"
proof -
  define f where "f = round53 b"
  have f: "0 < f" using round53_gt_half [OF assms(1)] assms(1) by (simp add: f_def)
  then have "0 < 5 * f" by simp
  from round53_gt_half [OF this] f have p: "3 \<le> round53 (5 * f)" by linarith
  from assms have "float_of_int b = Some f"
    by (simp add: natural_winnings_def float_of_int_def f_def Let_def split: if_splits)
  with assms(2) f have "w = round53 (5 * f) div 2"
    by (simp add: natural_winnings_def int_of_times_2_5_def Let_def split: if_splits)
  with p show ?thesis by linarith
qed

lemma natural_winnings_exact:
  assumes "0 < b" and "5 * b < 2 ^ 53"
  shows "natural_winnings b = Some (5 * b div 2)"
proof -
  from assms have b: "b < 2 ^ 53" by linarith
  with assms(1) have "float_of_int b = Some b"
    by (simp add: float_of_int_def round53_small)
  moreover have "int_of_times_2_5 b = Some (5 * b div 2)"
    using assms by (simp add: int_of_times_2_5_def round53_small)
  ultimately show ?thesis by (simp add: natural_winnings_def)
qed

section \<open>Settlement\<close>

lemma end_round_keeps:
  "deck (end_round s) = deck s" "player (end_round s) = player s"
  "dealer (end_round s) = dealer s" "in_round (end_round s) = in_round s"
  "bet (end_round s) = bet s"
  by (simp_all add: end_round_def Let_def)

lemma end_round_bankroll:
  "bankroll (end_round s) =
     (let x = bankroll s +
            (case round_result (value_of_hand (player s)) (value_of_hand (dealer s)) of
               Win \<Rightarrow> bet s * 2 | Push \<Rightarrow> bet s | Lose \<Rightarrow> 0)
      in if x \<le> 0 then 1000 else x)"
  by (cases "round_result (value_of_hand (player s)) (value_of_hand (dealer s))")
    (simp_all add: end_round_def Let_def)

lemma end_round_positive: "0 < bankroll (end_round s)"
  by (simp add: end_round_bankroll Let_def)

lemma stand_done:
  assumes "is_shuffle sh" and "in_round a"
  shows "\<exists>d h. stand sh a = (Done, end_round (a\<lparr>deck := d, dealer := h, in_round := False\<rparr>))"
proof -
  from dealer_loop_draws [OF assms(1), of "deck a" "dealer a"] obtain drawn d'
    where "dealer_loop sh (deck a) (dealer a) = (True, d', dealer a @ drawn)"
    by blast
  with assms(2) have "stand sh a =
      (Done, end_round (a\<lparr>deck := d', dealer := dealer a @ drawn, in_round := False\<rparr>))"
    by (simp add: stand_def dealer_play_def)
  then show ?thesis by blast
qed

text \<open>
  In every state the application can reach, a round in progress has a positive bet: the
  bet is set only when a round starts, to a value that is not \<open>\<le> 0\<close>.
\<close>

lemma blackjack_check_bet:
  "bet (snd (blackjack_check s)) = bet s"
  by (simp add: blackjack_check_def Let_def split: option.split)

lemma start_round_bet:
  "0 < n \<Longrightarrow> \<not> in_round a \<Longrightarrow> in_round (snd (start_round sh n a)) \<Longrightarrow>
     0 < bet (snd (start_round sh n a))"
  by (auto simp: start_round_def Let_def blackjack_check_bet split: prod.splits option.splits)

lemma reachable_in_round_bet:
  assumes "reachable sh a" and "in_round a"
  shows "0 < bet a"
  using assms
proof (induction rule: reachable.induct)
  case reach_init
  then show ?case by (simp add: init_app_def)
next
  case (reach_new_round a b)
  then show ?case
    using start_round_bet [of _ a sh]
    by (auto simp: new_round_def split: option.splits if_splits)
next
  case (reach_hit a)
  then show ?case
    by (auto simp: hit_def Let_def end_round_keeps split: prod.splits option.splits if_splits)
next
  case (reach_stand a)
  then show ?case
    by (auto simp: stand_def dealer_play_def end_round_keeps split: prod.splits if_splits)
qed

text \<open>
  Claim C2, as amended. When the player stands in a round (with the bet positive and
  the bankroll, from which the bet is already taken, not negative), the dealer plays
  and the round is settled: with \<open>pv\<close> and \<open>dv\<close> the final values, the result is Win
  when \<open>pv \<le> 21\<close> and \<open>dv > 21\<close> or \<open>pv > dv\<close>, and the bankroll grows by twice the bet;
  Push when \<open>pv = dv \<le> 21\<close>, and the bankroll grows by the bet; Lose when \<open>pv > 21\<close> or
  \<open>pv < dv \<le> 21\<close>, and the bankroll stays as it is unless it is 0 or less, in which case
  it becomes 1000.
\<close>

theorem stand_settlement:
  assumes "is_shuffle sh" and "in_round a" and "0 \<le> bankroll a" and "0 < bet a"
  shows "let a' = snd (stand sh a);
             pv = value_of_hand (player a');
             dv = value_of_hand (dealer a')
         in fst (stand sh a) = Done \<and> \<not> in_round a' \<and> player a' = player a \<and> bet a' = bet a
            \<and> (pv \<le> 21 \<and> (21 < dv \<or> dv < pv) \<longrightarrow>
                 round_result pv dv = Win \<and> bankroll a' = bankroll a + 2 * bet a)
            \<and> (pv \<le> 21 \<and> dv \<le> 21 \<and> pv = dv \<longrightarrow>
                 round_result pv dv = Push \<and> bankroll a' = bankroll a + bet a)
            \<and> (21 < pv \<or> (pv < dv \<and> dv \<le> 21) \<longrightarrow>
                 round_result pv dv = Lose
                 \<and> bankroll a' = (if bankroll a \<le> 0 then 1000 else bankroll a))"
proof -
  from stand_done [OF assms(1,2)] obtain d h
    where st: "stand sh a = (Done, end_round (a\<lparr>deck := d, dealer := h, in_round := False\<rparr>))"
    by blast
  let ?s = "a\<lparr>deck := d, dealer := h, in_round := False\<rparr>"
  let ?pv = "value_of_hand (player a)" and ?dv = "value_of_hand h"
  have b: "bankroll (end_round ?s) =
     (let x = bankroll a + (case round_result ?pv ?dv of
               Win \<Rightarrow> bet a * 2 | Push \<Rightarrow> bet a | Lose \<Rightarrow> 0)
      in if x \<le> 0 then 1000 else x)"
    by (simp add: end_round_bankroll split: result.split)
  have w: "?pv \<le> 21 \<and> (21 < ?dv \<or> ?dv < ?pv) \<longrightarrow>
      round_result ?pv ?dv = Win \<and> bankroll (end_round ?s) = bankroll a + 2 * bet a"
    using assms(3,4) by (auto simp: b round_result_def)
  have p: "?pv \<le> 21 \<and> ?dv \<le> 21 \<and> ?pv = ?dv \<longrightarrow>
      round_result ?pv ?dv = Push \<and> bankroll (end_round ?s) = bankroll a + bet a"
    using assms(3,4) by (auto simp: b round_result_def)
  have l: "21 < ?pv \<or> (?pv < ?dv \<and> ?dv \<le> 21) \<longrightarrow>
      round_result ?pv ?dv = Lose
      \<and> bankroll (end_round ?s) = (if bankroll a \<le> 0 then 1000 else bankroll a)"
    by (auto simp: b round_result_def)
  from w p l show ?thesis by (simp add: st end_round_keeps Let_def)
qed

theorem stand_settlement_witness:
  "is_shuffle (cut_at 9) \<and> in_round all_in_round \<and> 0 \<le> bankroll all_in_round
   \<and> 0 < bet all_in_round
   \<and> fst (stand (cut_at 9) all_in_round) = Done
   \<and> value_of_hand (player (snd (stand (cut_at 9) all_in_round))) = 19
   \<and> value_of_hand (dealer (snd (stand (cut_at 9) all_in_round))) = 21
   \<and> round_result 19 21 = Lose
   \<and> bankroll (snd (stand (cut_at 9) all_in_round)) = 1000"
proof -
  have h: "0 \<le> bankroll all_in_round" "0 < bet all_in_round"
    by (simp_all add: all_in_round_state)
  have v: "value_of_hand (player (snd (stand (cut_at 9) all_in_round))) = 19"
    "value_of_hand (dealer (snd (stand (cut_at 9) all_in_round))) = 21"
    by code_simp+
  from stand_settlement [OF is_shuffle_cut_at all_in_round_state(1) h, of 9]
    is_shuffle_cut_at [of 9] all_in_round_state h v
  show ?thesis by (simp add: Let_def)
qed

text \<open>
  Claim C2 as stated fails on a lost round after an all-in bet: the player stands on 19
  with a bankroll of 0, the dealer draws to 21, the round is lost, and the bankroll is
  1000 afterwards, not the 0 it was after the bet.
\<close>

theorem stand_loss_resets_bankroll:
  "in_round all_in_round \<and> bankroll all_in_round = 0
   \<and> fst (stand (cut_at 9) all_in_round) = Done
   \<and> value_of_hand (player (snd (stand (cut_at 9) all_in_round))) = 19
   \<and> value_of_hand (dealer (snd (stand (cut_at 9) all_in_round))) = 21
   \<and> round_result 19 21 = Lose
   \<and> bankroll (snd (stand (cut_at 9) all_in_round)) \<noteq> bankroll all_in_round"
  by code_simp

text \<open>
  Claim C5, as amended. A \<open>hit\<close> in a round deals one card to the player. If the hand
  is then worth more than 21, the round is lost and over at once: the dealer's hand is
  untouched, no other card leaves the deck, and the bankroll stays as it is unless it is
  0 or less, in which case it becomes 1000. Otherwise the round goes on and only the
  deck and the player's hand have changed.
\<close>

theorem hit_settlement:
  assumes "is_shuffle sh" and "in_round a"
  shows "\<exists>c d. deal sh (deck a) = (Some c, d)
           \<and> (21 < value_of_hand (player a @ [c]) \<longrightarrow>
                round_result (value_of_hand (player a @ [c])) (value_of_hand (dealer a)) = Lose
                \<and> hit sh a =
                    (Done, a\<lparr>deck := d, player := player a @ [c], in_round := False,
                       bankroll := (if bankroll a \<le> 0 then 1000 else bankroll a)\<rparr>))
           \<and> (value_of_hand (player a @ [c]) \<le> 21 \<longrightarrow>
                hit sh a = (Done, a\<lparr>deck := d, player := player a @ [c]\<rparr>))"
proof -
  from deal_succeeds [OF assms(1), of "deck a"] obtain c d
    where c: "deal sh (deck a) = (Some c, d)" by blast
  let ?s = "a\<lparr>deck := d, player := player a @ [c], in_round := False\<rparr>"
  have bust: "end_round ?s = ?s\<lparr>bankroll := (if bankroll a \<le> 0 then 1000 else bankroll a)\<rparr>"
    if "21 < value_of_hand (player a @ [c])"
    using that by (simp add: end_round_def round_result_def Let_def)
  have "21 < value_of_hand (player a @ [c]) \<longrightarrow>
          round_result (value_of_hand (player a @ [c])) (value_of_hand (dealer a)) = Lose
          \<and> hit sh a = (Done, ?s\<lparr>bankroll := (if bankroll a \<le> 0 then 1000 else bankroll a)\<rparr>)"
    using assms(2) c bust by (simp add: hit_def round_result_def)
  moreover have "value_of_hand (player a @ [c]) \<le> 21 \<longrightarrow>
          hit sh a = (Done, a\<lparr>deck := d, player := player a @ [c]\<rparr>)"
    using assms(2) c by (simp add: hit_def)
  ultimately show ?thesis using c by auto
qed

theorem hit_settlement_witness:
  "is_shuffle (cut_at 9) \<and> in_round all_in_round
   \<and> fst (deal (cut_at 9) (deck all_in_round)) = Some (Six, Spades)
   \<and> value_of_hand (player all_in_round @ [(Six, Spades)]) = 25
   \<and> fst (hit (cut_at 9) all_in_round) = Done
   \<and> \<not> in_round (snd (hit (cut_at 9) all_in_round))
   \<and> dealer (snd (hit (cut_at 9) all_in_round)) = dealer all_in_round
   \<and> bankroll (snd (hit (cut_at 9) all_in_round)) = 1000"
proof -
  from hit_settlement [OF is_shuffle_cut_at all_in_round_state(1), of 9] obtain c d
    where cd: "deal (cut_at 9) (deck all_in_round) = (Some c, d)"
      and bust: "21 < value_of_hand (player all_in_round @ [c]) \<longrightarrow>
        hit (cut_at 9) all_in_round =
          (Done, all_in_round\<lparr>deck := d, player := player all_in_round @ [c],
             in_round := False,
             bankroll := (if bankroll all_in_round \<le> 0 then 1000 else bankroll all_in_round)\<rparr>)"
    by blast
  have top: "fst (deal (cut_at 9) (deck all_in_round)) = Some (Six, Spades)"
    by code_simp
  with cd have c: "c = (Six, Spades)" by simp
  have v: "value_of_hand (player all_in_round @ [(Six, Spades)]) = 25"
    by code_simp
  with bust c have "hit (cut_at 9) all_in_round =
      (Done, all_in_round\<lparr>deck := d, player := player all_in_round @ [c],
         in_round := False, bankroll := 1000\<rparr>)"
    by (simp add: all_in_round_state(2))
  with top v is_shuffle_cut_at [of 9] all_in_round_state(1) show ?thesis by simp
qed

text \<open>
  Claim C5 as stated fails on a bust after an all-in bet: the player holds 19 with a
  bankroll of 0, draws a 6, and the bankroll is 1000 afterwards.
\<close>

theorem bust_resets_bankroll:
  "in_round all_in_round \<and> bankroll all_in_round = 0
   \<and> fst (hit (cut_at 9) all_in_round) = Done
   \<and> value_of_hand (player (snd (hit (cut_at 9) all_in_round))) = 25
   \<and> \<not> in_round (snd (hit (cut_at 9) all_in_round))
   \<and> bankroll (snd (hit (cut_at 9) all_in_round)) \<noteq> bankroll all_in_round"
  by code_simp

section \<open>Starting a round\<close>

lemma deal_two_succeeds:
  assumes "is_shuffle sh"
  shows "\<exists>c1 c2 d1 d2. deal sh d = (Some c1, d1) \<and> deal sh d1 = (Some c2, d2)
           \<and> deal_two sh d = (Some [c1, c2], d2)"
proof -
  from deal_succeeds [OF assms, of d] obtain c1 d1 where 1: "deal sh d = (Some c1, d1)"
    by blast
  from deal_succeeds [OF assms, of d1] obtain c2 d2 where 2: "deal sh d1 = (Some c2, d2)"
    by blast
  from 1 2 have "deal_two sh d = (Some [c1, c2], d2)" by (simp add: deal_two_def)
  with 1 2 show ?thesis by blast
qed

lemma blackjack_check_bankroll:
  assumes "0 \<le> bankroll s" and "0 < bet s" and "in_round s"
  shows "0 \<le> bankroll (snd (blackjack_check s))"
    and "\<not> in_round (snd (blackjack_check s)) \<Longrightarrow> 0 < bankroll (snd (blackjack_check s))"
proof -
  show "0 \<le> bankroll (snd (blackjack_check s))"
    using assms natural_winnings_positive [OF assms(2)]
    by (auto simp: blackjack_check_def Let_def split: option.split)
  show "0 < bankroll (snd (blackjack_check s))" if "\<not> in_round (snd (blackjack_check s))"
    using that assms natural_winnings_positive [OF assms(2)]
    by (auto simp: blackjack_check_def Let_def split: option.splits if_splits)
qed

lemma start_round_bankroll:
  assumes "is_shuffle sh" and "0 < n" and "n \<le> bankroll a"
  shows "0 \<le> bankroll (snd (start_round sh n a))"
    and "\<not> in_round (snd (start_round sh n a)) \<Longrightarrow> 0 < bankroll (snd (start_round sh n a))"
proof -
  let ?a1 = "a\<lparr>bet := n, bankroll := bankroll a - n\<rparr>"
  from deal_two_succeeds [OF assms(1), of "deck a"] obtain p d1
    where p: "deal_two sh (deck a) = (Some p, d1)" by blast
  from deal_two_succeeds [OF assms(1), of d1] obtain dl d2
    where dl: "deal_two sh d1 = (Some dl, d2)" by blast
  let ?s = "?a1\<lparr>deck := d2, player := p, dealer := dl, in_round := True\<rparr>"
  have st: "start_round sh n a = blackjack_check ?s"
    using p dl by (simp add: start_round_def)
  have s: "0 \<le> bankroll ?s" "0 < bet ?s" "in_round ?s" using assms by simp_all
  show "0 \<le> bankroll (snd (start_round sh n a))"
    unfolding st by (rule blackjack_check_bankroll(1) [OF s])
  show "0 < bankroll (snd (start_round sh n a))" if "\<not> in_round (snd (start_round sh n a))"
    using that unfolding st by (rule blackjack_check_bankroll(2) [OF s])
qed

text \<open>
  What \<open>new_round\<close> does with an accepted bet \<open>n\<close>, as long as \<open>5 * n < 2 ^ 53\<close>: the
  first two cards of the deck go to the player and the next two to the dealer; a
  natural of the player against a dealer without 21 pays \<open>\<lfloor>2.5 * n\<rfloor>\<close> and ends the round,
  two naturals give the bet back and end the round, and any other deal leaves the round
  open with the bet taken from the bankroll.
\<close>

lemma new_round_accepted:
  assumes "is_shuffle sh" and "\<not> in_round a" and "0 < n" and "n \<le> bankroll a"
    and "5 * n < 2 ^ 53"
  shows "\<exists>p dl d. deals sh 4 (deck a) = (map Some (p @ dl), d)
           \<and> length p = 2 \<and> length dl = 2
           \<and> new_round sh (Some n) a =
               (Done, a\<lparr>bet := n,
                  bankroll := bankroll a - n +
                    (if value_of_hand p = 21 \<and> value_of_hand dl \<noteq> 21 then 5 * n div 2
                     else if value_of_hand p = 21 \<and> value_of_hand dl = 21 then n
                     else 0),
                  deck := d, player := p, dealer := dl,
                  in_round := (value_of_hand p \<noteq> 21)\<rparr>)"
proof -
  from deal_two_succeeds [OF assms(1), of "deck a"] obtain c1 c2 d1 d2
    where 1: "deal sh (deck a) = (Some c1, d1)" and 2: "deal sh d1 = (Some c2, d2)"
      and p: "deal_two sh (deck a) = (Some [c1, c2], d2)" by blast
  from deal_two_succeeds [OF assms(1), of d2] obtain c3 c4 d3 d4
    where 3: "deal sh d2 = (Some c3, d3)" and 4: "deal sh d3 = (Some c4, d4)"
      and dl: "deal_two sh d2 = (Some [c3, c4], d4)" by blast
  have ds: "deals sh 4 (deck a) = (map Some ([c1, c2] @ [c3, c4]), d4)"
    using 1 2 3 4 by (simp add: eval_nat_numeral)
  have "new_round sh (Some n) a =
               (Done, a\<lparr>bet := n,
                  bankroll := bankroll a - n +
                    (if value_of_hand [c1, c2] = 21 \<and> value_of_hand [c3, c4] \<noteq> 21
                     then 5 * n div 2
                     else if value_of_hand [c1, c2] = 21 \<and> value_of_hand [c3, c4] = 21 then n
                     else 0),
                  deck := d4, player := [c1, c2], dealer := [c3, c4],
                  in_round := (value_of_hand [c1, c2] \<noteq> 21)\<rparr>)"
    using assms(2,3,4) p dl natural_winnings_exact [OF assms(3,5)]
    by (simp add: new_round_def start_round_def blackjack_check_def Let_def)
  with ds show ?thesis
    by (intro exI [of _ "[c1, c2]"] exI [of _ "[c3, c4]"] exI [of _ d4]) simp
qed

subsection \<open>A long winning streak\<close>

text \<open>
  The state \<open>high_roller\<close> of the example plays is one the application can reach, under
  a shuffle that only rearranges the cards; no round is in progress there and the
  bankroll has grown from 1000 to 4395533341669084.
\<close>

lemma is_shuffle_upturned: "is_shuffle upturned"
  by (simp add: is_shuffle_def upturned_def)

lemma reachable_half_deck: "reachable upturned a \<Longrightarrow> reachable upturned (half_deck a)"
  unfolding half_deck_def stands_def hits_def round_all_in_def round_of_1_def
  by (intro reach_stand reach_hit reach_new_round)

lemma reachable_half_decks: "reachable upturned a \<Longrightarrow> reachable upturned (half_decks n a)"
  by (induction n) (simp_all add: reachable_half_deck)

lemma reachable_high_roller: "reachable upturned high_roller"
  unfolding high_roller_def stands_def hits_def round_of_1_def
  by (intro reach_stand reach_hit reach_new_round reachable_half_decks reach_init)

lemma high_roller_state:
  "high_roller =
     \<lparr>deck = \<lparr>cards = take 41 (rev full_deck), shuffles = 8\<rparr>,
      player = [(Eight, Spades), (Nine, Spades), (Queen, Spades)],
      dealer = [(Ten, Spades), (Jack, Spades)],
      in_round = False, bankroll = 4395533341669084, bet = 1\<rparr>"
  by code_simp

text \<open>
  Claim C3 has the payout of a natural at exactly \<open>\<lfloor>2.5 * bet\<rfloor>\<close>. The code computes
  it in binary64. In the state reached above the player bets 1801439850948199 and is
  dealt a natural against a dealer's 5: the product \<open>4503599627370497.5\<close> has no binary64
  representation and rounds to its even neighbour, so the bankroll receives
  4503599627370498, one more than \<open>\<lfloor>2.5 * bet\<rfloor>\<close>.
\<close>

theorem natural_payout_rounding:
  "is_shuffle upturned \<and> reachable upturned high_roller
   \<and> \<not> in_round high_roller \<and> bankroll high_roller = 4395533341669084
   \<and> fst (new_round upturned (Some 1801439850948199) high_roller) = Done
   \<and> value_of_hand (player (snd (new_round upturned (Some 1801439850948199) high_roller))) = 21
   \<and> value_of_hand (dealer (snd (new_round upturned (Some 1801439850948199) high_roller))) = 5
   \<and> \<not> in_round (snd (new_round upturned (Some 1801439850948199) high_roller))
   \<and> bankroll (snd (new_round upturned (Some 1801439850948199) high_roller))
       = bankroll high_roller - 1801439850948199 + 4503599627370498
   \<and> 5 * 1801439850948199 div 2 = (4503599627370497 :: int)"
proof -
  have "\<not> in_round high_roller" and "bankroll high_roller = 4395533341669084"
    by (simp_all add: high_roller_state)
  moreover
  have "fst (new_round upturned (Some 1801439850948199) high_roller) = Done"
    and "value_of_hand (player (snd (new_round upturned (Some 1801439850948199) high_roller))) = 21"
    and "value_of_hand (dealer (snd (new_round upturned (Some 1801439850948199) high_roller))) = 5"
    and "\<not> in_round (snd (new_round upturned (Some 1801439850948199) high_roller))"
    and "bankroll (snd (new_round upturned (Some 1801439850948199) high_roller))
       = bankroll high_roller - 1801439850948199 + 4503599627370498"
    unfolding high_roller_state by code_simp+
  ultimately show ?thesis using is_shuffle_upturned reachable_high_roller by simp
qed

section \<open>The bankroll\<close>

text \<open>
  Claim C8. After every settlement, a bankroll of 0 or less has been replaced by 1000.
  After a \<open>stand\<close> the bankroll is the one before plus the payout of the result,
  replaced by 1000 if that is 0 or less; after a bust it is the one before, replaced by
  1000 if that is 0 or less; and a round that \<open>new_round\<close> settles at once, on a
  natural, leaves the bankroll positive, so that no bankroll of 0 or less is left there
  either.
\<close>

theorem settlement_resets_exhausted_bankroll:
  assumes "is_shuffle sh"
  shows "(in_round a \<longrightarrow>
            fst (stand sh a) = Done \<and> \<not> in_round (snd (stand sh a))
            \<and> bankroll (snd (stand sh a)) =
                (let x = bankroll a +
                       (case round_result (value_of_hand (player a))
                               (value_of_hand (dealer (snd (stand sh a)))) of
                          Win \<Rightarrow> bet a * 2 | Push \<Rightarrow> bet a | Lose \<Rightarrow> 0)
                 in if x \<le> 0 then 1000 else x))
       \<and> (in_round a \<and> \<not> in_round (snd (hit sh a)) \<longrightarrow>
            fst (hit sh a) = Done
            \<and> bankroll (snd (hit sh a)) = (if bankroll a \<le> 0 then 1000 else bankroll a))
       \<and> (\<not> in_round a \<and> fst (new_round sh b a) = Done \<and> \<not> in_round (snd (new_round sh b a)) \<longrightarrow>
            0 < bankroll (snd (new_round sh b a)))"
proof -
  have s: "fst (stand sh a) = Done \<and> \<not> in_round (snd (stand sh a))
            \<and> bankroll (snd (stand sh a)) =
                (let x = bankroll a +
                       (case round_result (value_of_hand (player a))
                               (value_of_hand (dealer (snd (stand sh a)))) of
                          Win \<Rightarrow> bet a * 2 | Push \<Rightarrow> bet a | Lose \<Rightarrow> 0)
                 in if x \<le> 0 then 1000 else x)" if r: "in_round a"
  proof -
    from stand_done [OF assms r] obtain d h
      where st: "stand sh a = (Done, end_round (a\<lparr>deck := d, dealer := h, in_round := False\<rparr>))"
      by blast
    show ?thesis
      by (simp add: st end_round_keeps end_round_bankroll split: result.split)
  qed
  have h: "fst (hit sh a) = Done
            \<and> bankroll (snd (hit sh a)) = (if bankroll a \<le> 0 then 1000 else bankroll a)"
    if r: "in_round a" and n: "\<not> in_round (snd (hit sh a))"
  proof -
    from deal_succeeds [OF assms, of "deck a"] obtain c d
      where c: "deal sh (deck a) = (Some c, d)" by blast
    have bust: "21 < value_of_hand (player a @ [c])"
      using r n c by (simp add: hit_def Let_def split: if_splits)
    then show ?thesis
      using r c by (simp add: hit_def Let_def end_round_bankroll round_result_def)
  qed
  have n: "0 < bankroll (snd (new_round sh b a))"
    if "\<not> in_round a" and "fst (new_round sh b a) = Done"
      and "\<not> in_round (snd (new_round sh b a))"
    using that start_round_bankroll(2) [OF assms]
    by (auto simp: new_round_def split: option.splits if_splits)
  from s h n show ?thesis by blast
qed

theorem settlement_resets_exhausted_bankroll_witness:
  "is_shuffle (cut_at 9) \<and> in_round all_in_round \<and> bankroll all_in_round = 0
   \<and> \<not> in_round (snd (stand (cut_at 9) all_in_round))
   \<and> bankroll (snd (stand (cut_at 9) all_in_round)) = 1000
   \<and> \<not> in_round (snd (hit (cut_at 9) all_in_round))
   \<and> bankroll (snd (hit (cut_at 9) all_in_round)) = 1000
   \<and> \<not> in_round (init_app (cut_at 0))
   \<and> fst (new_round (cut_at 0) (Some 10) (init_app (cut_at 0))) = Done
   \<and> \<not> in_round (snd (new_round (cut_at 0) (Some 10) (init_app (cut_at 0))))
   \<and> 0 < bankroll (snd (new_round (cut_at 0) (Some 10) (init_app (cut_at 0))))"
proof -
  have l: "round_result (value_of_hand (player all_in_round))
      (value_of_hand (dealer (snd (stand (cut_at 9) all_in_round)))) = Lose"
    by code_simp
  have b: "\<not> in_round (snd (hit (cut_at 9) all_in_round))" by code_simp
  have n: "\<not> in_round (init_app (cut_at 0))"
    "fst (new_round (cut_at 0) (Some 10) (init_app (cut_at 0))) = Done"
    "\<not> in_round (snd (new_round (cut_at 0) (Some 10) (init_app (cut_at 0))))"
    by code_simp+
  from settlement_resets_exhausted_bankroll [OF is_shuffle_cut_at, of all_in_round 9 None]
    settlement_resets_exhausted_bankroll
      [OF is_shuffle_cut_at, of "init_app (cut_at 0)" 0 "Some 10"]
    l b n is_shuffle_cut_at [of 9] all_in_round_state(1,2)
  show ?thesis by (simp add: Let_def)
qed

lemma new_round_bankroll:
  assumes "is_shuffle sh" and "0 \<le> bankroll a" and "\<not> in_round a \<longrightarrow> 0 < bankroll a"
  shows "0 \<le> bankroll (snd (new_round sh b a))"
    and "\<not> in_round (snd (new_round sh b a)) \<longrightarrow> 0 < bankroll (snd (new_round sh b a))"
  using assms start_round_bankroll [OF assms(1)]
  by (auto simp: new_round_def split: option.split)

lemma hit_bankroll:
  assumes "0 \<le> bankroll a" and "\<not> in_round a \<longrightarrow> 0 < bankroll a"
  shows "0 \<le> bankroll (snd (hit sh a))"
    and "\<not> in_round (snd (hit sh a)) \<longrightarrow> 0 < bankroll (snd (hit sh a))"
  using assms end_round_positive less_imp_le [OF end_round_positive]
  by (auto simp: hit_def Let_def end_round_keeps split: prod.split option.split)

lemma stand_bankroll:
  assumes "0 \<le> bankroll a" and "\<not> in_round a \<longrightarrow> 0 < bankroll a"
  shows "0 \<le> bankroll (snd (stand sh a))"
    and "\<not> in_round (snd (stand sh a)) \<longrightarrow> 0 < bankroll (snd (stand sh a))"
  using assms end_round_positive less_imp_le [OF end_round_positive]
  by (auto simp: stand_def dealer_play_def end_round_keeps split: prod.split)

text \<open>
  Claim C10. In every state the application can reach, with a shuffle that rearranges
  the cards, the bankroll is not negative, and it is positive whenever no round is in
  progress.
\<close>

theorem reachable_bankroll:
  assumes "is_shuffle sh" and "reachable sh a"
  shows "0 \<le> bankroll a \<and> (\<not> in_round a \<longrightarrow> 0 < bankroll a)"
  using assms(2)
proof (induction rule: reachable.induct)
  case reach_init
  show ?case by (simp add: init_app_def)
next
  case (reach_new_round a b)
  then show ?case using new_round_bankroll [OF assms(1), of a b] by blast
next
  case (reach_hit a)
  then show ?case using hit_bankroll [of a sh] by blast
next
  case (reach_stand a)
  then show ?case using stand_bankroll [of a sh] by blast
qed

lemma reachable_all_in_round: "reachable (cut_at 9) all_in_round"
  unfolding all_in_round_def by (intro reach_new_round reach_init)

theorem reachable_bankroll_witness:
  "is_shuffle (cut_at 9) \<and> reachable (cut_at 9) all_in_round
   \<and> in_round all_in_round \<and> 0 \<le> bankroll all_in_round
   \<and> reachable (cut_at 9) (snd (stand (cut_at 9) all_in_round))
   \<and> \<not> in_round (snd (stand (cut_at 9) all_in_round))
   \<and> 0 < bankroll (snd (stand (cut_at 9) all_in_round))"
proof -
  have r: "reachable (cut_at 9) (snd (stand (cut_at 9) all_in_round))"
    by (intro reach_stand reachable_all_in_round)
  have n: "\<not> in_round (snd (stand (cut_at 9) all_in_round))" by code_simp
  from reachable_bankroll [OF is_shuffle_cut_at reachable_all_in_round]
    reachable_bankroll [OF is_shuffle_cut_at r] r n
    is_shuffle_cut_at [of 9] reachable_all_in_round all_in_round_state(1)
  show ?thesis by simp
qed

end
